theory Spec2Isabelle
  imports Main "HOL-Library.Monad_Syntax" "HOL-Library.Multiset"
begin

section \<open>The splay tree of \<open>algo_task_2.py\<close>\<close>

subsection \<open>Nodes and trees\<close>

text \<open>
  A Python \<open>Node\<close> carries \<open>key\<close>, \<open>value\<close>, \<open>left\<close> and \<open>right\<close>; a child link is a
  \<open>Node\<close> or \<open>None\<close>. \<open>Empty\<close> stands for \<open>None\<close>. Keys and values are Python integers,
  hence unbounded. The state of a \<open>SplayTree\<close> object is its single field \<open>root\<close>, so an
  operation of the class takes the root and returns the new one.

  Dereferencing \<open>None\<close> raises \<open>AttributeError\<close> in Python. It is the only way the code can
  fail, so a fallible operation returns an \<open>option\<close> whose \<open>None\<close> means: no result.
\<close>

datatype tree = Empty | Node int int tree tree

text \<open>The outcome of \<open>search\<close>: the stored value, or Python's \<open>None\<close> for a miss.\<close>

datatype lookup = Miss | Hit int

subsection \<open>Rotations\<close>

text \<open>
  \<open>_rotate_right(x)\<close>: \<open>y = x.left; x.left = y.right; y.right = x; return y\<close>.
  With \<open>x\<close> or \<open>x.left\<close> equal to \<open>None\<close> the attribute access raises.
\<close>

fun rotate_right :: "tree \<Rightarrow> tree option" where
  "rotate_right (Node xk xv (Node yk yv yl yr) xr) = Some (Node yk yv yl (Node xk xv yr xr))"
| "rotate_right (Node xk xv Empty xr) = None"
| "rotate_right Empty = None"

text \<open>\<open>_rotate_left(x)\<close>: \<open>y = x.right; x.right = y.left; y.left = x; return y\<close>.\<close>

fun rotate_left :: "tree \<Rightarrow> tree option" where
  "rotate_left (Node xk xv xl (Node yk yv yl yr)) = Some (Node yk yv (Node xk xv xl yl) yr)"
| "rotate_left (Node xk xv xl Empty) = None"
| "rotate_left Empty = None"

subsection \<open>The splay procedure\<close>

text \<open>
  \<open>_splay(root, key)\<close>, branch by branch as in the source. The recursion is left open
  (a recursive call that did not return would give \<open>None\<close>, as a failed attribute access
  does); that it always returns is a theorem below.
\<close>

partial_function (option) splay :: "tree \<Rightarrow> int \<Rightarrow> tree option" where
  "splay root key =
    (case root of
       Empty \<Rightarrow> Some root
     | Node rk rv l r \<Rightarrow>
         if rk = key then Some root
         else if key < rk then
           (case l of
              Empty \<Rightarrow> Some root
            | Node lk lv ll lr \<Rightarrow>
                do {
                  root1 \<leftarrow>
                    (if key < lk then
                       do {
                         ll' \<leftarrow> splay ll key;
                         rotate_right (Node rk rv (Node lk lv ll' lr) r)
                       }
                     else if key > lk then
                       do {
                         lr' \<leftarrow> splay lr key;
                         if lr' \<noteq> Empty then
                           do {
                             l' \<leftarrow> rotate_left (Node lk lv ll lr');
                             Some (Node rk rv l' r)
                           }
                         else Some (Node rk rv (Node lk lv ll lr') r)
                       }
                     else Some root);
                  (case root1 of
                     Empty \<Rightarrow> None
                   | Node _ _ l1 _ \<Rightarrow> if l1 = Empty then Some root1 else rotate_right root1)
                })
         else
           (case r of
              Empty \<Rightarrow> Some root
            | Node qk qv rl rr \<Rightarrow>
                do {
                  root1 \<leftarrow>
                    (if key > qk then
                       do {
                         rr' \<leftarrow> splay rr key;
                         rotate_left (Node rk rv l (Node qk qv rl rr'))
                       }
                     else if key < qk then
                       do {
                         rl' \<leftarrow> splay rl key;
                         if rl' \<noteq> Empty then
                           do {
                             r' \<leftarrow> rotate_right (Node qk qv rl' rr);
                             Some (Node rk rv l r')
                           }
                         else Some (Node rk rv l (Node qk qv rl' rr))
                       }
                     else Some root);
                  (case root1 of
                     Empty \<Rightarrow> None
                   | Node _ _ _ r1 \<Rightarrow> if r1 = Empty then Some root1 else rotate_left root1)
                }))"

declare splay.simps [code]

subsection \<open>\<open>search\<close> and \<open>insert\<close>\<close>

text \<open>
  \<open>search(key)\<close> splays, stores the result as the new root, and returns the root's value
  when the root carries \<open>key\<close>, else \<open>None\<close>. Here it returns the outcome and the new root.
\<close>

definition search :: "tree \<Rightarrow> int \<Rightarrow> (lookup \<times> tree) option" where
  "search root key =
     do {
       root' \<leftarrow> splay root key;
       Some (case root' of
               Empty \<Rightarrow> (Miss, root')
             | Node rk rv _ _ \<Rightarrow> if rk = key then (Hit rv, root') else (Miss, root'))
     }"

text \<open>
  \<open>insert(key, value)\<close>: a singleton for the empty tree; otherwise splay, then overwrite the
  root's value when the root carries \<open>key\<close>, else hang the old root and one of its subtrees
  under a new root.
\<close>

definition insert_splay :: "tree \<Rightarrow> int \<Rightarrow> int \<Rightarrow> tree option" where
  "insert_splay root key v =
     (case root of
        Empty \<Rightarrow> Some (Node key v Empty Empty)
      | Node _ _ _ _ \<Rightarrow>
          do {
            root' \<leftarrow> splay root key;
            (case root' of
               Empty \<Rightarrow> None
             | Node rk rv l r \<Rightarrow>
                 if rk = key then Some (Node rk v l r)
                 else if key < rk then Some (Node key v l (Node rk rv Empty r))
                 else Some (Node key v (Node rk rv l Empty) r))
          })"

subsection \<open>The memoizing driver\<close>

text \<open>
  \<open>fibonacci_splay(n, tree)\<close>. The two operand lookups of the loop body, in the order of the
  source (\<open>a = tree.search(k - 1)\<close>, then \<open>b = tree.search(k - 2)\<close>), each on the tree the
  previous call left behind.
\<close>

definition fill_operands :: "tree \<Rightarrow> int \<Rightarrow> (lookup \<times> lookup \<times> tree) option" where
  "fill_operands t k =
     do {
       (a, t1) \<leftarrow> search t (k - 1);
       (b, t2) \<leftarrow> search t1 (k - 2);
       Some (a, b, t2)
     }"

text \<open>\<open>x if x is not None else 0\<close>.\<close>

fun or_zero :: "lookup \<Rightarrow> int" where
  "or_zero (Hit x) = x"
| "or_zero Miss = 0"

text \<open>One iteration of \<open>for k in range(0, n + 1)\<close>.\<close>

definition fill_step :: "tree \<Rightarrow> int \<Rightarrow> tree option" where
  "fill_step t k =
     do {
       (hit, t1) \<leftarrow> search t k;
       (case hit of
          Hit _ \<Rightarrow> Some t1
        | Miss \<Rightarrow>
            if k < 2 then insert_splay t1 k k
            else
              do {
                (a, b, t2) \<leftarrow> fill_operands t1 k;
                insert_splay t2 k (or_zero a + or_zero b)
              })
     }"

text \<open>The loop over a list of indices; the source runs it on \<open>[0..n]\<close>.\<close>

fun fill :: "tree \<Rightarrow> int list \<Rightarrow> tree option" where
  "fill t [] = Some t"
| "fill t (k # ks) = do { t' \<leftarrow> fill_step t k; fill t' ks }"

definition fibonacci_splay :: "int \<Rightarrow> tree \<Rightarrow> (lookup \<times> tree) option" where
  "fibonacci_splay n tree =
     do {
       (hit, t0) \<leftarrow> search tree n;
       (case hit of
          Hit v \<Rightarrow> Some (Hit v, t0)
        | Miss \<Rightarrow> do { t1 \<leftarrow> fill t0 [0..n]; search t1 n })
     }"

subsection \<open>The recurrence and an iterative reference\<close>

text \<open>
  The recurrence as the specification words it: \<open>F(0) = 0\<close>, \<open>F(1) = 1\<close>,
  \<open>F(k) = F(k - 1) + F(k - 2)\<close>.
\<close>

fun F :: "nat \<Rightarrow> int" where
  "F 0 = 0"
| "F (Suc 0) = 1"
| "F (Suc (Suc k)) = F (Suc k) + F k"

text \<open>
  The iterative computation, as the loop of \<open>fibonacci_lru\<close> has it:
  \<open>a, b = 0, 1\<close>, then \<open>a, b = b, a + b\<close> once for each index in \<open>range(2, n + 1)\<close>, with
  \<open>n\<close> itself returned below 2.
\<close>

definition fib_iter :: "int \<Rightarrow> int" where
  "fib_iter n = (if n < 2 then n else snd (fold (\<lambda>_ (a, b). (b, a + b)) [2..n] (0, 1)))"

subsection \<open>Sequences of calls\<close>

text \<open>A call of the tree's interface, and a sequence of calls run from a given root.\<close>

datatype call = Insert int int | Search int

fun apply_call :: "tree \<Rightarrow> call \<Rightarrow> tree option" where
  "apply_call t (Insert k v) = insert_splay t k v"
| "apply_call t (Search k) = map_option snd (search t k)"

fun run :: "tree \<Rightarrow> call list \<Rightarrow> tree option" where
  "run t [] = Some t"
| "run t (c # cs) = do { t' \<leftarrow> apply_call t c; run t' cs }"

subsection \<open>Observations on a tree\<close>

text \<open>
  The stored pairs in symmetric order, the set of keys, the number of nodes, and the
  ordering invariant of the data model: at every node, the keys of the left subtree are
  strictly smaller and the keys of the right subtree strictly greater than the node's key.
\<close>

fun entries :: "tree \<Rightarrow> (int \<times> int) list" where
  "entries Empty = []"
| "entries (Node k v l r) = entries l @ (k, v) # entries r"

fun keys :: "tree \<Rightarrow> int set" where
  "keys Empty = {}"
| "keys (Node k v l r) = insert k (keys l \<union> keys r)"

fun bst :: "tree \<Rightarrow> bool" where
  "bst Empty = True"
| "bst (Node k v l r) = (bst l \<and> bst r \<and> (\<forall>x \<in> keys l. x < k) \<and> (\<forall>x \<in> keys r. k < x))"

fun node_count :: "tree \<Rightarrow> nat" where
  "node_count Empty = 0"
| "node_count (Node k v l r) = Suc (node_count l + node_count r)"

text \<open>What \<open>search\<close> reads off the root after splaying.\<close>

definition at_root :: "tree \<Rightarrow> int \<Rightarrow> lookup" where
  "at_root t key = (case t of Empty \<Rightarrow> Miss | Node rk rv _ _ \<Rightarrow> if rk = key then Hit rv else Miss)"

text \<open>The memo table is sound when every stored index from 0 on carries its \<open>F\<close> value.\<close>

definition memo_ok :: "tree \<Rightarrow> bool" where
  "memo_ok t = list_all (\<lambda>(k, v). 0 \<le> k \<longrightarrow> v = F (nat k)) (entries t)"

subsection \<open>The splay procedure without failure\<close>

text \<open>
  The same case analysis as \<open>splay\<close>, with the two rotations of each branch carried out.
  It is a total function by construction; \<open>splay_eq\<close> shows that \<open>splay\<close> returns exactly
  its result, so no attribute access fails and no recursive call is left without a result.
\<close>

fun splay_tot :: "tree \<Rightarrow> int \<Rightarrow> tree" where
  "splay_tot Empty key = Empty"
| "splay_tot (Node rk rv l r) key =
    (if rk = key then Node rk rv l r
     else if key < rk then
       (case l of
          Empty \<Rightarrow> Node rk rv l r
        | Node lk lv ll lr \<Rightarrow>
            if key < lk then
              (case splay_tot ll key of
                 Empty \<Rightarrow> Node lk lv Empty (Node rk rv lr r)
               | Node ak av al ar \<Rightarrow> Node ak av al (Node lk lv ar (Node rk rv lr r)))
            else if key > lk then
              (case splay_tot lr key of
                 Empty \<Rightarrow> Node lk lv ll (Node rk rv Empty r)
               | Node ak av al ar \<Rightarrow> Node ak av (Node lk lv ll al) (Node rk rv ar r))
            else Node lk lv ll (Node rk rv lr r))
     else
       (case r of
          Empty \<Rightarrow> Node rk rv l r
        | Node qk qv rl rr \<Rightarrow>
            if key > qk then
              (case splay_tot rr key of
                 Empty \<Rightarrow> Node qk qv (Node rk rv l rl) Empty
               | Node ak av al ar \<Rightarrow> Node ak av (Node qk qv (Node rk rv l rl) al) ar)
            else if key < qk then
              (case splay_tot rl key of
                 Empty \<Rightarrow> Node qk qv (Node rk rv l Empty) rr
               | Node ak av al ar \<Rightarrow> Node ak av (Node rk rv l al) (Node qk qv ar rr))
            else Node qk qv (Node rk rv l rl) rr))"

text \<open>\<open>insert\<close> after the splay has returned \<open>splay_tot\<close>'s tree.\<close>

definition insert_tot :: "tree \<Rightarrow> int \<Rightarrow> int \<Rightarrow> tree" where
  "insert_tot root key v =
     (case splay_tot root key of
        Empty \<Rightarrow> Node key v Empty Empty
      | Node rk rv l r \<Rightarrow>
          if rk = key then Node rk v l r
          else if key < rk then Node key v l (Node rk rv Empty r)
          else Node key v (Node rk rv l Empty) r)"

section \<open>Properties of the splay procedure\<close>

lemma splay_tot_induct [case_names Empty Root LEmpty LRoot LL LR REmpty RRoot RR RL]:
  assumes "\<And>key. P Empty key"
    and "\<And>key v l r. P (Node key v l r) key"
    and "\<And>key rk rv r. key < rk \<Longrightarrow> P (Node rk rv Empty r) key"
    and "\<And>key rk rv lv ll lr r. key < rk \<Longrightarrow> P (Node rk rv (Node key lv ll lr) r) key"
    and "\<And>key rk rv lk lv ll lr r.
           key < rk \<Longrightarrow> key < lk \<Longrightarrow> P ll key \<Longrightarrow> P (Node rk rv (Node lk lv ll lr) r) key"
    and "\<And>key rk rv lk lv ll lr r.
           key < rk \<Longrightarrow> lk < key \<Longrightarrow> P lr key \<Longrightarrow> P (Node rk rv (Node lk lv ll lr) r) key"
    and "\<And>key rk rv l. rk < key \<Longrightarrow> P (Node rk rv l Empty) key"
    and "\<And>key rk rv l qv rl rr. rk < key \<Longrightarrow> P (Node rk rv l (Node key qv rl rr)) key"
    and "\<And>key rk rv l qk qv rl rr.
           rk < key \<Longrightarrow> qk < key \<Longrightarrow> P rr key \<Longrightarrow> P (Node rk rv l (Node qk qv rl rr)) key"
    and "\<And>key rk rv l qk qv rl rr.
           rk < key \<Longrightarrow> key < qk \<Longrightarrow> P rl key \<Longrightarrow> P (Node rk rv l (Node qk qv rl rr)) key"
  shows "P t key"
proof (induction t key rule: splay_tot.induct)
  case (1 key)
  show ?case by (rule assms(1))
next
  case (2 rk rv l r key)
  consider (eq) "rk = key" | (lt) "key < rk" | (gt) "rk < key"
    by linarith
  then show ?case
  proof cases
    case eq
    then show ?thesis using assms(2) by simp
  next
    case lt
    show ?thesis
    proof (cases l)
      case Empty
      then show ?thesis using lt assms(3) by simp
    next
      case (Node lk lv ll lr)
      consider (leq) "lk = key" | (llt) "key < lk" | (lgt) "lk < key"
        by linarith
      then show ?thesis
      proof cases
        case leq
        then show ?thesis using lt Node assms(4) by simp
      next
        case llt
        have "P ll key" using "2.IH"(1)[OF _ lt Node llt] lt by simp
        then show ?thesis using lt llt Node assms(5) by simp
      next
        case lgt
        have "P lr key" using "2.IH"(2)[OF _ lt Node _ _] lt lgt by simp
        then show ?thesis using lt lgt Node assms(6) by simp
      qed
    qed
  next
    case gt
    show ?thesis
    proof (cases r)
      case Empty
      then show ?thesis using gt assms(7) by simp
    next
      case (Node qk qv rl rr)
      consider (req) "qk = key" | (rgt) "qk < key" | (rlt) "key < qk"
        by linarith
      then show ?thesis
      proof cases
        case req
        then show ?thesis using gt Node assms(8) by simp
      next
        case rgt
        have "P rr key" using "2.IH"(3)[OF _ _ Node _] gt rgt by simp
        then show ?thesis using gt rgt Node assms(9) by simp
      next
        case rlt
        have "P rl key" using "2.IH"(4)[OF _ _ Node _ _] gt rlt by simp
        then show ?thesis using gt rlt Node assms(10) by simp
      qed
    qed
  qed
qed


lemma splay_eq: "splay t k = Some (splay_tot t k)"
proof (induction t k rule: splay_tot_induct)
  case (LL key rk rv lk lv ll lr r)
  then show ?case by (subst splay.simps) (simp split: tree.splits)
next
  case (LR key rk rv lk lv ll lr r)
  then show ?case by (subst splay.simps) (simp split: tree.splits)
next
  case (RR key rk rv l qk qv rl rr)
  then show ?case by (subst splay.simps) (simp split: tree.splits)
next
  case (RL key rk rv l qk qv rl rr)
  then show ?case by (subst splay.simps) (simp split: tree.splits)
qed (subst splay.simps, simp)+

lemma keys_entries: "keys t = fst ` set (entries t)"
  by (induction t) auto

lemma splay_tot_nonempty: "t \<noteq> Empty \<Longrightarrow> splay_tot t k \<noteq> Empty"
  by (induction t k rule: splay_tot_induct) (auto split: tree.splits)

lemma entries_splay_tot: "entries (splay_tot t k) = entries t"
  by (induction t k rule: splay_tot_induct) (auto split: tree.splits)

lemma keys_splay_tot: "keys (splay_tot t k) = keys t"
  by (simp add: keys_entries entries_splay_tot)

lemma bst_iff_sorted: "bst t \<longleftrightarrow> sorted_wrt (<) (map fst (entries t))"
  by (induction t) (force simp: sorted_wrt_append keys_entries)+

lemma bst_splay_tot: "bst t \<Longrightarrow> bst (splay_tot t k)"
  by (simp add: bst_iff_sorted entries_splay_tot)

section \<open>Properties of \<open>search\<close> and \<open>insert\<close>\<close>

lemma search_eq: "search t k = Some (at_root (splay_tot t k) k, splay_tot t k)"
  by (simp add: search_def splay_eq at_root_def split: tree.splits)

lemma insert_eq: "insert_splay t k v = Some (insert_tot t k v)"
proof (cases t)
  case Empty
  then show ?thesis by (simp add: insert_splay_def insert_tot_def)
next
  case (Node a b l r)
  then have "splay_tot t k \<noteq> Empty" using splay_tot_nonempty by blast
  then show ?thesis using Node
    by (simp add: insert_splay_def insert_tot_def splay_eq split: tree.splits)
qed

lemma splay_tot_partition:
  "bst t \<Longrightarrow> splay_tot t k = Node a v l r \<Longrightarrow> (\<forall>x \<in> keys l. x < k) \<and> (\<forall>x \<in> keys r. k < x)"
proof (induction t k arbitrary: a v l r rule: splay_tot_induct)
  case (LL key rk rv lk lv ll lr r')
  then show ?case by (fastforce split: tree.splits)
next
  case (LR key rk rv lk lv ll lr r')
  then show ?case by (fastforce split: tree.splits)
next
  case (RR key rk rv l' qk qv rl rr)
  then show ?case by (fastforce split: tree.splits)
next
  case (RL key rk rv l' qk qv rl rr)
  then show ?case by (fastforce split: tree.splits)
qed fastforce+


lemma splay_tot_root:
  assumes "bst t" and "k \<in> keys t"
  shows "\<exists>v l r. splay_tot t k = Node k v l r"
proof -
  from assms(2) have "t \<noteq> Empty" by auto
  then obtain a v l r where eq: "splay_tot t k = Node a v l r"
    using splay_tot_nonempty[of t k] by (cases "splay_tot t k") auto
  have "k \<in> keys (Node a v l r)"
    using assms(2) keys_splay_tot[of t k] eq by simp
  moreover have "(\<forall>x \<in> keys l. x < k) \<and> (\<forall>x \<in> keys r. k < x)"
    using splay_tot_partition[OF assms(1) eq] .
  ultimately have "a = k" by auto
  with eq show ?thesis by blast
qed

lemma insert_tot_root: "\<exists>l r. insert_tot t k v = Node k v l r"
  by (auto simp: insert_tot_def split: tree.splits)

lemma keys_insert_tot: "keys (insert_tot t k v) = insert k (keys t)"
proof -
  have "keys (insert_tot t k v) = insert k (keys (splay_tot t k))"
    by (auto simp: insert_tot_def split: tree.splits)
  then show ?thesis by (simp add: keys_splay_tot)
qed

lemma bst_insert_tot:
  assumes "bst t"
  shows "bst (insert_tot t k v)"
proof (cases "splay_tot t k")
  case Empty
  then show ?thesis by (simp add: insert_tot_def)
next
  case (Node a w l r)
  have b: "bst (Node a w l r)" using bst_splay_tot[OF assms, of k] Node by simp
  have p: "(\<forall>x \<in> keys l. x < k) \<and> (\<forall>x \<in> keys r. k < x)"
    using splay_tot_partition[OF assms Node] .
  show ?thesis using b p Node by (fastforce simp: insert_tot_def)
qed

lemma map_of_entries_keys: "map_of (entries t) k = None \<longleftrightarrow> k \<notin> keys t"
  by (simp add: keys_entries map_of_eq_None_iff)

lemma map_of_entries_root:
  assumes "bst (Node k v l r)"
  shows "map_of (entries (Node k v l r)) k = Some v"
proof -
  have "k \<notin> keys l" using assms by auto
  then have "map_of (entries l) k = None" by (simp add: map_of_entries_keys)
  then show ?thesis by (simp add: map_add_def)
qed

lemma at_root_splay_tot:
  assumes "bst t"
  shows "at_root (splay_tot t k) k = (case map_of (entries t) k of None \<Rightarrow> Miss | Some v \<Rightarrow> Hit v)"
proof (cases "k \<in> keys t")
  case True
  then obtain v l r where eq: "splay_tot t k = Node k v l r"
    using splay_tot_root[OF assms] by blast
  have "bst (Node k v l r)" using bst_splay_tot[OF assms, of k] eq by simp
  then have "map_of (entries (Node k v l r)) k = Some v" by (rule map_of_entries_root)
  moreover have "entries t = entries (Node k v l r)"
    using entries_splay_tot[of t k] eq by simp
  ultimately have "map_of (entries t) k = Some v" by simp
  then show ?thesis using eq by (simp add: at_root_def)
next
  case False
  then have n: "map_of (entries t) k = None" by (simp add: map_of_entries_keys)
  have "k \<notin> keys (splay_tot t k)" using False by (simp add: keys_splay_tot)
  then have "at_root (splay_tot t k) k = Miss"
    by (auto simp: at_root_def split: tree.splits)
  then show ?thesis using n by simp
qed

lemma map_of_insert_tot:
  assumes "bst t"
  shows "map_of (entries (insert_tot t k v)) = (map_of (entries t))(k \<mapsto> v)"
proof (cases "splay_tot t k")
  case Empty
  then have "entries t = []" using entries_splay_tot[of t k] by simp
  then show ?thesis using Empty by (simp add: insert_tot_def)
next
  case (Node a w l r)
  have b: "bst (Node a w l r)" using bst_splay_tot[OF assms, of k] Node by simp
  have p: "(\<forall>x \<in> keys l. x < k) \<and> (\<forall>x \<in> keys r. k < x)"
    using splay_tot_partition[OF assms Node] .
  have e: "entries t = entries l @ (a, w) # entries r"
    using entries_splay_tot[of t k] Node by simp
  have nl: "map_of (entries l) k = None" using p by (auto simp: map_of_entries_keys)
  have nr: "map_of (entries r) k = None" using p by (auto simp: map_of_entries_keys)
  have ins: "insert_tot t k v =
      (if a = k then Node a v l r
       else if k < a then Node k v l (Node a w Empty r)
       else Node k v (Node a w l Empty) r)"
    using Node by (simp add: insert_tot_def)
  show ?thesis
  proof (rule ext)
    fix x
    show "map_of (entries (insert_tot t k v)) x = ((map_of (entries t))(k \<mapsto> v)) x"
    proof (cases "a = k")
      case True
      then show ?thesis using ins e nl
        by (cases "x = k"; cases "map_of (entries l) x"; simp add: map_add_def)
    next
      case False
      then show ?thesis using ins e nl nr
        by (cases "x = k"; cases "map_of (entries l) x"; cases "k < a"; simp add: map_add_def)
    qed
  qed
qed

lemma node_count_entries: "node_count t = length (entries t)"
  by (induction t) auto

lemma bst_distinct: "bst t \<Longrightarrow> distinct (map fst (entries t))"
  by (simp add: bst_iff_sorted strict_sorted_iff)

lemma apply_call_bst: "bst t \<Longrightarrow> \<exists>t'. apply_call t c = Some t' \<and> bst t'"
  by (cases c) (simp_all add: insert_eq bst_insert_tot search_eq bst_splay_tot)

lemma run_bst: "bst t \<Longrightarrow> \<exists>t'. run t cs = Some t' \<and> bst t'"
proof (induction cs arbitrary: t)
  case Nil
  then show ?case by simp
next
  case (Cons c cs)
  from apply_call_bst[OF Cons.prems, of c]
  obtain t1 where 1: "apply_call t c = Some t1" and 2: "bst t1" by blast
  from Cons.IH[OF 2] obtain t2 where "run t1 cs = Some t2" and "bst t2" by blast
  with 1 show ?case by simp
qed

section \<open>Properties of the memoizing driver\<close>

lemma search_bst:
  "bst t \<Longrightarrow> search t k =
     Some (case map_of (entries t) k of None \<Rightarrow> Miss | Some v \<Rightarrow> Hit v, splay_tot t k)"
  by (simp add: search_eq at_root_splay_tot)

lemma search_bst_present:
  assumes "bst t" and "k \<in> keys t"
  shows "\<exists>v. map_of (entries t) k = Some v \<and> search t k = Some (Hit v, splay_tot t k)"
proof -
  obtain v where "map_of (entries t) k = Some v"
    using assms(2) map_of_entries_keys[of t k] by (cases "map_of (entries t) k") auto
  then show ?thesis using search_bst[OF assms(1), of k] by simp
qed

lemma search_bst_absent:
  assumes "bst t" and "k \<notin> keys t"
  shows "search t k = Some (Miss, splay_tot t k)"
proof -
  have "map_of (entries t) k = None" using assms(2) by (simp add: map_of_entries_keys)
  then show ?thesis using search_bst[OF assms(1), of k] by simp
qed

lemma fill_operands_present:
  assumes "bst t" and "k - 1 \<in> keys t" and "k - 2 \<in> keys t"
  shows "\<exists>a b t'. fill_operands t k = Some (Hit a, Hit b, t') \<and> bst t' \<and> entries t' = entries t
           \<and> map_of (entries t) (k - 1) = Some a \<and> map_of (entries t) (k - 2) = Some b"
proof -
  let ?t1 = "splay_tot t (k - 1)"
  obtain a where a: "map_of (entries t) (k - 1) = Some a"
    and s1: "search t (k - 1) = Some (Hit a, ?t1)"
    using search_bst_present[OF assms(1,2)] by blast
  have b1: "bst ?t1" using assms(1) by (rule bst_splay_tot)
  have k1: "k - 2 \<in> keys ?t1" using assms(3) by (simp add: keys_splay_tot)
  obtain b where b: "map_of (entries ?t1) (k - 2) = Some b"
    and s2: "search ?t1 (k - 2) = Some (Hit b, splay_tot ?t1 (k - 2))"
    using search_bst_present[OF b1 k1] by blast
  have "fill_operands t k = Some (Hit a, Hit b, splay_tot ?t1 (k - 2))"
    using s1 s2 by (simp add: fill_operands_def)
  moreover have "bst (splay_tot ?t1 (k - 2))" using b1 by (rule bst_splay_tot)
  ultimately show ?thesis using a b by (auto simp: entries_splay_tot)
qed

lemma fill_step_keys:
  assumes "bst t"
  shows "\<exists>t'. fill_step t k = Some t' \<and> bst t' \<and> keys t' = insert k (keys t)"
proof (cases "k \<in> keys t")
  case True
  then obtain v where "search t k = Some (Hit v, splay_tot t k)"
    using search_bst_present[OF assms] by blast
  then have "fill_step t k = Some (splay_tot t k)" by (simp add: fill_step_def)
  then show ?thesis using True assms by (auto simp: bst_splay_tot keys_splay_tot)
next
  case False
  let ?t1 = "splay_tot t k"
  have s: "search t k = Some (Miss, ?t1)" using search_bst_absent[OF assms False] .
  have b1: "bst ?t1" using assms by (rule bst_splay_tot)
  show ?thesis
  proof (cases "k < 2")
    case True
    then have "fill_step t k = Some (insert_tot ?t1 k k)"
      using s by (simp add: fill_step_def insert_eq)
    then show ?thesis using b1 by (simp add: bst_insert_tot keys_insert_tot keys_splay_tot)
  next
    case False
    obtain a b t2 where "fill_operands ?t1 k = Some (a, b, t2)" and "bst t2" and "keys t2 = keys t"
      by (auto simp: fill_operands_def search_eq bst_splay_tot b1 keys_splay_tot)
    then show ?thesis using s False
      by (simp add: fill_step_def insert_eq bst_insert_tot keys_insert_tot)
  qed
qed

lemma fill_keys:
  "bst t \<Longrightarrow> \<exists>t'. fill t ks = Some t' \<and> bst t' \<and> keys t' = keys t \<union> set ks"
proof (induction ks arbitrary: t)
  case Nil
  then show ?case by simp
next
  case (Cons k ks)
  obtain t1 where 1: "fill_step t k = Some t1" and 2: "bst t1" and 3: "keys t1 = insert k (keys t)"
    using fill_step_keys[OF Cons.prems, of k] by blast
  obtain t2 where "fill t1 ks = Some t2" and "bst t2" and "keys t2 = keys t1 \<union> set ks"
    using Cons.IH[OF 2] by blast
  then show ?case using 1 3 by auto
qed

lemma memo_ok_splay_tot: "memo_ok (splay_tot t k) = memo_ok t"
  by (simp add: memo_ok_def entries_splay_tot)

lemma memo_ok_lookup:
  assumes "memo_ok t" and "map_of (entries t) k = Some v" and "0 \<le> k"
  shows "v = F (nat k)"
proof -
  have "(k, v) \<in> set (entries t)" using assms(2) by (rule map_of_SomeD)
  then show ?thesis using assms(1,3) by (auto simp: memo_ok_def list_all_iff)
qed

lemma memo_ok_insert_tot:
  assumes "bst t" and "memo_ok t" and "0 \<le> k \<longrightarrow> v = F (nat k)"
  shows "memo_ok (insert_tot t k v)"
proof -
  have d: "distinct (map fst (entries (insert_tot t k v)))"
    using bst_insert_tot[OF assms(1)] by (rule bst_distinct)
  have "\<And>x y. (x, y) \<in> set (entries (insert_tot t k v)) \<Longrightarrow> 0 \<le> x \<Longrightarrow> y = F (nat x)"
  proof -
    fix x y
    assume m: "(x, y) \<in> set (entries (insert_tot t k v))" and x: "0 \<le> x"
    have "map_of (entries (insert_tot t k v)) x = Some y" using d m by simp
    then have u: "((map_of (entries t))(k \<mapsto> v)) x = Some y"
      by (simp add: map_of_insert_tot[OF assms(1)])
    show "y = F (nat x)"
    proof (cases "x = k")
      case True
      then show ?thesis using u x assms(3) by simp
    next
      case False
      then have "map_of (entries t) x = Some y" using u by simp
      then show ?thesis using memo_ok_lookup[OF assms(2) _ x] by blast
    qed
  qed
  then show ?thesis by (auto simp: memo_ok_def list_all_iff)
qed

lemma F_step: "2 \<le> k \<Longrightarrow> F (nat (k - 1)) + F (nat (k - 2)) = F (nat k)"
proof -
  assume "2 \<le> k"
  then have "nat k = Suc (Suc (nat (k - 2)))" and "nat (k - 1) = Suc (nat (k - 2))" by auto
  then show ?thesis by simp
qed

lemma fill_step_memo:
  assumes "bst t" and "memo_ok t" and "0 \<le> k" and "\<forall>i. 0 \<le> i \<and> i < k \<longrightarrow> i \<in> keys t"
  shows "\<exists>t'. fill_step t k = Some t' \<and> bst t' \<and> memo_ok t' \<and> keys t' = insert k (keys t)"
proof (cases "k \<in> keys t")
  case True
  then obtain v where "search t k = Some (Hit v, splay_tot t k)"
    using search_bst_present[OF assms(1)] by blast
  then have "fill_step t k = Some (splay_tot t k)" by (simp add: fill_step_def)
  then show ?thesis using True assms(1,2)
    by (auto simp: bst_splay_tot keys_splay_tot memo_ok_splay_tot)
next
  case False
  let ?t1 = "splay_tot t k"
  have s: "search t k = Some (Miss, ?t1)" using search_bst_absent[OF assms(1) False] .
  have b1: "bst ?t1" using assms(1) by (rule bst_splay_tot)
  have m1: "memo_ok ?t1" using assms(2) by (simp add: memo_ok_splay_tot)
  show ?thesis
  proof (cases "k < 2")
    case True
    then have "k = 0 \<or> k = 1" using assms(3) by auto
    then have v: "0 \<le> k \<longrightarrow> k = F (nat k)" by auto
    have "fill_step t k = Some (insert_tot ?t1 k k)"
      using s True by (simp add: fill_step_def insert_eq)
    then show ?thesis using b1 memo_ok_insert_tot[OF b1 m1 v]
      by (simp add: bst_insert_tot keys_insert_tot keys_splay_tot)
  next
    case False
    then have k2: "2 \<le> k" by simp
    have "k - 1 \<in> keys t" using assms(4)[rule_format, of "k - 1"] k2 by simp
    then have p1: "k - 1 \<in> keys ?t1" by (simp add: keys_splay_tot)
    have "k - 2 \<in> keys t" using assms(4)[rule_format, of "k - 2"] k2 by simp
    then have p2: "k - 2 \<in> keys ?t1" by (simp add: keys_splay_tot)
    obtain a b t2 where f: "fill_operands ?t1 k = Some (Hit a, Hit b, t2)"
      and b2: "bst t2" and e2: "entries t2 = entries ?t1"
      and a: "map_of (entries ?t1) (k - 1) = Some a"
      and b: "map_of (entries ?t1) (k - 2) = Some b"
      using fill_operands_present[OF b1 p1 p2] by blast
    have m2: "memo_ok t2" using m1 e2 by (simp add: memo_ok_def)
    have "a = F (nat (k - 1))" using memo_ok_lookup[OF m1 a] k2 by simp
    moreover have "b = F (nat (k - 2))" using memo_ok_lookup[OF m1 b] k2 by simp
    ultimately have v: "0 \<le> k \<longrightarrow> a + b = F (nat k)" using F_step[OF k2] by simp
    have k2': "keys t2 = keys t" using e2 by (simp add: keys_entries entries_splay_tot)
    have "fill_step t k = Some (insert_tot t2 k (a + b))"
      using s f False by (simp add: fill_step_def insert_eq)
    then show ?thesis using b2 memo_ok_insert_tot[OF b2 m2 v] k2'
      by (simp add: bst_insert_tot keys_insert_tot)
  qed
qed

lemma fill_memo:
  "bst t \<Longrightarrow> memo_ok t \<Longrightarrow> 0 \<le> j \<Longrightarrow> \<forall>i. 0 \<le> i \<and> i < j \<longrightarrow> i \<in> keys t \<Longrightarrow>
     \<exists>t'. fill t [j..n] = Some t' \<and> bst t' \<and> memo_ok t' \<and> keys t' = keys t \<union> {j..n}"
proof (induction j n arbitrary: t rule: upto.induct)
  case (1 j n)
  show ?case
  proof (cases "j \<le> n")
    case False
    then show ?thesis using "1.prems" by simp
  next
    case True
    obtain t1 where s: "fill_step t j = Some t1" and b1: "bst t1" and m1: "memo_ok t1"
      and k1: "keys t1 = insert j (keys t)"
      using fill_step_memo[OF "1.prems"(1,2,3,4)] by blast
    have p: "\<forall>i. 0 \<le> i \<and> i < j + 1 \<longrightarrow> i \<in> keys t1"
    proof (intro allI impI)
      fix i :: int
      assume i: "0 \<le> i \<and> i < j + 1"
      show "i \<in> keys t1"
      proof (cases "i = j")
        case True
        then show ?thesis using k1 by simp
      next
        case False
        then have "0 \<le> i \<and> i < j" using i by simp
        then have "i \<in> keys t" using "1.prems"(4) by blast
        then show ?thesis using k1 by simp
      qed
    qed
    have j1: "0 \<le> j + 1" using "1.prems"(3) by simp
    obtain t2 where f: "fill t1 [j + 1..n] = Some t2" and b2: "bst t2" and m2: "memo_ok t2"
      and k2: "keys t2 = keys t1 \<union> {j + 1..n}"
      using "1.IH"[OF True b1 m1 j1 p] by blast
    have "fill t [j..n] = Some t2" using True s f by (simp add: upto_rec1)
    moreover have "{j..n} = insert j {j + 1..n}" using True by auto
    then have "keys t2 = keys t \<union> {j..n}" using k1 k2 by simp
    ultimately show ?thesis using b2 m2 by blast
  qed
qed

lemma fib_loop:
  "2 \<le> i \<Longrightarrow> i \<le> n + 1 \<Longrightarrow>
     fold (\<lambda>_ (a, b). (b, a + b)) [i..n] (F (nat (i - 2)), F (nat (i - 1)))
       = (F (nat (n - 1)), F (nat n))"
proof (induction i n rule: upto.induct)
  case (1 i n)
  show ?case
  proof (cases "i \<le> n")
    case False
    then have "i = n + 1" using "1.prems" by simp
    then show ?thesis by simp
  next
    case True
    have st: "F (nat (i - 2)) + F (nat (i - 1)) = F (nat i)"
      using F_step[OF "1.prems"(1)] by (simp add: add.commute)
    have "fold (\<lambda>_ (a, b). (b, a + b)) [i..n] (F (nat (i - 2)), F (nat (i - 1)))
          = fold (\<lambda>_ (a, b). (b, a + b)) [i + 1..n] (F (nat (i - 1)), F (nat i))"
      using True st by (simp add: upto_rec1)
    also have "\<dots> = (F (nat (n - 1)), F (nat n))"
      using "1.IH"[OF True] "1.prems" True by simp
    finally show ?thesis .
  qed
qed

lemma fib_iter_F: "0 \<le> n \<Longrightarrow> fib_iter n = F (nat n)"
proof (cases "n < 2")
  case True
  assume "0 \<le> n"
  with True have "n = 0 \<or> n = 1" by auto
  then show ?thesis by (auto simp: fib_iter_def)
next
  case False
  then have "fold (\<lambda>_ (a, b). (b, a + b)) [2..n] (F (nat (2 - 2)), F (nat (2 - 1)))
       = (F (nat (n - 1)), F (nat n))"
    by (intro fib_loop) auto
  then show ?thesis using False by (simp add: fib_iter_def)
qed

section \<open>The claims about the tree\<close>

text \<open>
  C1. Whatever sequence of \<open>insert\<close> and \<open>search\<close> calls is run from the empty tree, every call
  returns and the resulting tree satisfies the ordering invariant: at every node the keys of
  the left subtree are strictly smaller and the keys of the right subtree strictly greater
  than the node's key; and no key is stored in two nodes.
\<close>

theorem bst_after_calls:
  "\<exists>t. run Empty cs = Some t \<and> bst t \<and> distinct (map fst (entries t))"
proof -
  obtain t where "run Empty cs = Some t" and "bst t"
    using run_bst[of Empty cs] by auto
  then show ?thesis using bst_distinct by blast
qed

theorem bst_after_calls_witness:
  "run Empty [Insert 5 50, Insert 3 30, Search 5, Search 9]
     = Some (Node 5 50 (Node 3 30 Empty Empty) Empty)
   \<and> bst (Node 5 50 (Node 3 30 Empty Empty) Empty)
   \<and> distinct (map fst (entries (Node 5 50 (Node 3 30 Empty Empty) Empty)))"
proof -
  have r: "run Empty [Insert 5 50, Insert 3 30, Search 5, Search 9]
             = Some (Node 5 50 (Node 3 30 Empty Empty) Empty)"
    by code_simp
  from bst_after_calls[of "[Insert 5 50, Insert 3 30, Search 5, Search 9]"]
  show ?thesis unfolding r by simp
qed

text \<open>
  C2. From any tree and for any key \<open>k\<close> and value \<open>v\<close>, \<open>insert(k, v)\<close> followed by
  \<open>search(k)\<close> returns \<open>v\<close>. No assumption on the tree is needed.
\<close>

theorem insert_then_search:
  "\<exists>t1 t2. insert_splay t k v = Some t1 \<and> search t1 k = Some (Hit v, t2)"
proof -
  obtain l r where "insert_tot t k v = Node k v l r"
    using insert_tot_root by blast
  then show ?thesis by (simp add: insert_eq search_eq at_root_def)
qed

text \<open>
  C3. In a tree that satisfies the ordering invariant (as every tree built by the interface
  does, by C1), \<open>search(k)\<close> for a present key \<open>k\<close> leaves a non-empty tree whose root carries
  \<open>k\<close>; the call returns the value stored at that root.
\<close>

theorem search_promotes_present_key:
  assumes "bst t" and "k \<in> keys t"
  shows "\<exists>v l r. search t k = Some (Hit v, Node k v l r)"
proof -
  obtain v l r where "splay_tot t k = Node k v l r"
    using splay_tot_root[OF assms] by blast
  then show ?thesis by (simp add: search_eq at_root_def)
qed

theorem search_promotes_present_key_witness:
  "bst (Node 3 30 Empty (Node 5 50 Empty Empty)) \<and> 5 \<in> keys (Node 3 30 Empty (Node 5 50 Empty Empty))
   \<and> (\<exists>v l r. search (Node 3 30 Empty (Node 5 50 Empty Empty)) 5 = Some (Hit v, Node 5 v l r))"
proof -
  have h1: "bst (Node 3 30 Empty (Node 5 50 Empty Empty))" by simp
  have h2: "5 \<in> keys (Node 3 30 Empty (Node 5 50 Empty Empty))" by simp
  from search_promotes_present_key[OF h1 h2] h1 h2 show ?thesis by blast
qed

text \<open>
  C6. From any tree, \<open>insert(k, v1)\<close>, \<open>insert(k, v2)\<close>, \<open>search(k)\<close> returns \<open>v2\<close>, and the
  second \<open>insert\<close> leaves the number of nodes as it found it.
\<close>

theorem insert_twice_updates:
  "\<exists>t1 t2 t3. insert_splay t k v1 = Some t1 \<and> insert_splay t1 k v2 = Some t2 \<and>
     search t2 k = Some (Hit v2, t3) \<and> node_count t2 = node_count t1"
proof -
  obtain l r where 1: "insert_tot t k v1 = Node k v1 l r"
    using insert_tot_root by blast
  have 2: "insert_tot (Node k v1 l r) k v2 = Node k v2 l r"
    by (simp add: insert_tot_def)
  show ?thesis using 1 2 by (simp add: insert_eq search_eq at_root_def)
qed

text \<open>
  C8. In a tree that satisfies the ordering invariant, splaying on a present key \<open>k\<close> and
  then splaying the result on \<open>k\<close> again returns the very tree the first splay returned.
\<close>

theorem splay_twice_on_present_key:
  assumes "bst t" and "k \<in> keys t"
  shows "\<exists>t1. splay t k = Some t1 \<and> splay t1 k = Some t1"
proof -
  obtain v l r where "splay_tot t k = Node k v l r"
    using splay_tot_root[OF assms] by blast
  then show ?thesis by (simp add: splay_eq)
qed

theorem splay_twice_on_present_key_witness:
  "bst (Node 3 30 Empty (Node 5 50 Empty Empty)) \<and> 5 \<in> keys (Node 3 30 Empty (Node 5 50 Empty Empty))
   \<and> (\<exists>t1. splay (Node 3 30 Empty (Node 5 50 Empty Empty)) 5 = Some t1 \<and> splay t1 5 = Some t1)"
proof -
  have h1: "bst (Node 3 30 Empty (Node 5 50 Empty Empty))" by simp
  have h2: "5 \<in> keys (Node 3 30 Empty (Node 5 50 Empty Empty))" by simp
  from splay_twice_on_present_key[OF h1 h2] h1 h2 show ?thesis by blast
qed

text \<open>
  C9. \<open>search(k)\<close> on any tree returns a tree that stores the same key/value pairs: the set
  of pairs is unchanged, each pair occurs as often as before (no node is created or
  deleted, no key or value is altered), and so the number of nodes is unchanged. Only the
  shape may differ.
\<close>

theorem search_keeps_entries:
  "\<exists>res t'. search t k = Some (res, t') \<and> set (entries t') = set (entries t) \<and>
     mset (entries t') = mset (entries t) \<and> node_count t' = node_count t"
  by (simp add: search_eq entries_splay_tot node_count_entries)

text \<open>
  C10. On every tree and for every key the recursion of \<open>_splay\<close> comes to an end and
  yields a tree, without a failed attribute access; hence \<open>search\<close> and \<open>insert\<close> return as
  well. (A value of type \<open>tree\<close> is a finite tree.)
\<close>

theorem splay_search_insert_return:
  "(\<exists>t'. splay t k = Some t') \<and> (\<exists>res t'. search t k = Some (res, t')) \<and>
   (\<exists>t'. insert_splay t k v = Some t')"
  by (simp add: splay_eq search_eq insert_eq)

text \<open>
  C5, as stated: after a miss the root carries the present key closest to \<open>k\<close>. It does not.
  After \<open>insert(5, 50)\<close> and \<open>insert(100, 1000)\<close>, \<open>search(90)\<close> misses and leaves 5 at the
  root, although 100 is present and nearer to 90.
\<close>

theorem search_miss_closest_counterexample:
  "run Empty [Insert 5 50, Insert 100 1000] = Some (Node 100 1000 (Node 5 50 Empty Empty) Empty)
   \<and> bst (Node 100 1000 (Node 5 50 Empty Empty) Empty)
   \<and> 90 \<notin> keys (Node 100 1000 (Node 5 50 Empty Empty) Empty)
   \<and> search (Node 100 1000 (Node 5 50 Empty Empty) Empty) 90 = Some (Miss, Node 5 50 Empty (Node 100 1000 Empty Empty))
   \<and> 100 \<in> keys (Node 100 1000 (Node 5 50 Empty Empty) Empty)
   \<and> \<bar>100 - 90\<bar> < \<bar>5 - (90 :: int)\<bar>"
proof -
  have "run Empty [Insert 5 50, Insert 100 1000] = Some (Node 100 1000 (Node 5 50 Empty Empty) Empty)"
    by code_simp
  moreover have "search (Node 100 1000 (Node 5 50 Empty Empty) Empty) 90 = Some (Miss, Node 5 50 Empty (Node 100 1000 Empty Empty))"
    by code_simp
  ultimately show ?thesis by simp
qed

text \<open>
  C5, amended. In a non-empty tree that satisfies the ordering invariant, \<open>search(k)\<close> for an
  absent key \<open>k\<close> returns the miss indicator and leaves at the root a present key next to \<open>k\<close>
  in key order: either the greatest present key below \<open>k\<close> or the least present key above
  \<open>k\<close>. Which of the two it is depends on the shape of the tree, not on the distance to \<open>k\<close>.
\<close>

theorem search_miss_promotes_neighbour:
  assumes "bst t" and "t \<noteq> Empty" and "k \<notin> keys t"
  shows "\<exists>a v l r. search t k = Some (Miss, Node a v l r) \<and> a \<in> keys t \<and>
           ((a < k \<and> (\<forall>x \<in> keys t. x \<le> a \<or> k < x)) \<or> (k < a \<and> (\<forall>x \<in> keys t. x < k \<or> a \<le> x)))"
proof -
  obtain a v l r where eq: "splay_tot t k = Node a v l r"
    using splay_tot_nonempty[OF assms(2), of k] by (cases "splay_tot t k") auto
  have s: "search t k = Some (Miss, Node a v l r)"
    using search_bst_absent[OF assms(1,3)] eq by simp
  have ks: "keys t = insert a (keys l \<union> keys r)"
    using keys_splay_tot[of t k] eq by simp
  have b: "bst (Node a v l r)" using bst_splay_tot[OF assms(1), of k] eq by simp
  have p: "(\<forall>x \<in> keys l. x < k) \<and> (\<forall>x \<in> keys r. k < x)"
    using splay_tot_partition[OF assms(1) eq] .
  have ne: "a \<noteq> k" using assms(3) ks by auto
  have "(a < k \<and> (\<forall>x \<in> keys t. x \<le> a \<or> k < x)) \<or> (k < a \<and> (\<forall>x \<in> keys t. x < k \<or> a \<le> x))"
    using ne b p ks by fastforce
  then show ?thesis using s ks by blast
qed

theorem search_miss_promotes_neighbour_witness:
  "bst (Node 100 1000 (Node 5 50 Empty Empty) Empty) \<and> Node 100 1000 (Node 5 50 Empty Empty) Empty \<noteq> Empty
   \<and> 90 \<notin> keys (Node 100 1000 (Node 5 50 Empty Empty) Empty)
   \<and> (\<exists>a v l r. search (Node 100 1000 (Node 5 50 Empty Empty) Empty) 90 = Some (Miss, Node a v l r)
         \<and> a \<in> keys (Node 100 1000 (Node 5 50 Empty Empty) Empty)
         \<and> ((a < 90 \<and> (\<forall>x \<in> keys (Node 100 1000 (Node 5 50 Empty Empty) Empty). x \<le> a \<or> 90 < x))
            \<or> (90 < a \<and> (\<forall>x \<in> keys (Node 100 1000 (Node 5 50 Empty Empty) Empty). x < 90 \<or> a \<le> x))))"
proof -
  have h1: "bst (Node 100 1000 (Node 5 50 Empty Empty) Empty)" by simp
  have h2: "Node 100 1000 (Node 5 50 Empty Empty) Empty \<noteq> Empty" by simp
  have h3: "90 \<notin> keys (Node 100 1000 (Node 5 50 Empty Empty) Empty)" by simp
  from search_miss_promotes_neighbour[OF h1 h2 h3] h1 h2 h3 show ?thesis by blast
qed

section \<open>The claims about the memoizing driver\<close>

text \<open>
  C7. Let the driver be called with \<open>n\<close> on a tree that satisfies the ordering invariant, let
  its first lookup miss (so that the loop runs), and let the loop have reached an index \<open>k\<close>
  with \<open>2 \<le> k \<le> n\<close> that it does not find in the tree. Then the two operand lookups
  \<open>search(k - 1)\<close> and \<open>search(k - 2)\<close> both hit: the fallback to 0 is never taken.
  Here \<open>t0\<close> is the tree after the first lookup, \<open>tk\<close> the tree after the iterations for
  \<open>0, \<dots>, k - 1\<close>, and \<open>tk'\<close> the tree after the lookup of \<open>k\<close>.
\<close>

theorem fill_operands_never_miss:
  assumes "bst t" and "2 \<le> k" and "k \<le> n"
    and "search t n = Some (Miss, t0)"
    and "fill t0 [0..k - 1] = Some tk"
    and "search tk k = Some (Miss, tk')"
  shows "\<exists>a b t''. fill_operands tk' k = Some (Hit a, Hit b, t'')"
proof -
  have b0: "bst t0" using assms(1,4) by (auto simp: search_eq bst_splay_tot)
  obtain u where "fill t0 [0..k - 1] = Some u" and bu: "bst u" and ku: "keys u = keys t0 \<union> set [0..k - 1]"
    using fill_keys[OF b0] by blast
  then have bk: "bst tk" and kk: "keys tk = keys t0 \<union> {0..k - 1}"
    using assms(5) by auto
  have e: "tk' = splay_tot tk k" using assms(6) by (simp add: search_eq)
  have b': "bst tk'" using bk e by (simp add: bst_splay_tot)
  have "k - 1 \<in> keys tk'" "k - 2 \<in> keys tk'"
    using kk e assms(2) by (auto simp: keys_splay_tot)
  then show ?thesis using fill_operands_present[OF b'] by blast
qed

theorem fill_operands_never_miss_witness:
  "bst Empty \<and> (2 :: int) \<le> 3 \<and> (3 :: int) \<le> 5
   \<and> search Empty 5 = Some (Miss, Empty)
   \<and> fill Empty [0..3 - 1] = Some (Node 2 1 (Node 1 1 (Node 0 0 Empty Empty) Empty) Empty)
   \<and> search (Node 2 1 (Node 1 1 (Node 0 0 Empty Empty) Empty) Empty) 3 = Some (Miss, Node 2 1 (Node 1 1 (Node 0 0 Empty Empty) Empty) Empty)
   \<and> (\<exists>a b t''. fill_operands (Node 2 1 (Node 1 1 (Node 0 0 Empty Empty) Empty) Empty) 3 = Some (Hit a, Hit b, t''))"
proof -
  have h1: "bst Empty" by simp
  have h2: "(2 :: int) \<le> 3" by simp
  have h3: "(3 :: int) \<le> 5" by simp
  have h4: "search Empty 5 = Some (Miss, Empty)" by code_simp
  have h5: "fill Empty [0..3 - 1] = Some (Node 2 1 (Node 1 1 (Node 0 0 Empty Empty) Empty) Empty)" by code_simp
  have h6: "search (Node 2 1 (Node 1 1 (Node 0 0 Empty Empty) Empty) Empty) 3 = Some (Miss, Node 2 1 (Node 1 1 (Node 0 0 Empty Empty) Empty) Empty)" by code_simp
  from fill_operands_never_miss[OF h1 h2 h3 h4 h5 h6] h1 h2 h3 h4 h5 h6
  show ?thesis by blast
qed

text \<open>
  C4. Called with an index \<open>n \<ge> 0\<close> (in particular with every \<open>n\<close> from 0 to 10000) on a memo
  tree, the driver returns the value of the recurrence at \<open>n\<close>, which is also what the
  iterative reference computes. A memo tree satisfies the ordering invariant and stores
  under every index from 0 on its \<open>F\<close> value; the empty tree is one, and the tree the driver
  leaves behind is one again, so the statement covers any sequence of driver calls on a
  tree that started empty. Integers are unbounded.
\<close>

theorem fibonacci_splay_correct:
  assumes "bst tree" and "memo_ok tree" and "0 \<le> n"
  shows "\<exists>t'. fibonacci_splay n tree = Some (Hit (fib_iter n), t') \<and> fib_iter n = F (nat n)
           \<and> bst t' \<and> memo_ok t'"
proof -
  have fi: "fib_iter n = F (nat n)" using assms(3) by (rule fib_iter_F)
  show ?thesis
  proof (cases "n \<in> keys tree")
    case True
    then obtain v where v: "map_of (entries tree) n = Some v"
      and s: "search tree n = Some (Hit v, splay_tot tree n)"
      using search_bst_present[OF assms(1)] by blast
    have "v = F (nat n)" using memo_ok_lookup[OF assms(2) v assms(3)] .
    then have "fibonacci_splay n tree = Some (Hit (fib_iter n), splay_tot tree n)"
      using s fi by (simp add: fibonacci_splay_def)
    then show ?thesis using fi assms(1,2) by (simp add: bst_splay_tot memo_ok_splay_tot)
  next
    case False
    let ?t0 = "splay_tot tree n"
    have s: "search tree n = Some (Miss, ?t0)" using search_bst_absent[OF assms(1) False] .
    have b0: "bst ?t0" using assms(1) by (rule bst_splay_tot)
    have m0: "memo_ok ?t0" using assms(2) by (simp add: memo_ok_splay_tot)
    have z: "(0::int) \<le> 0" by simp
    have p0: "\<forall>i. 0 \<le> i \<and> i < 0 \<longrightarrow> i \<in> keys ?t0" by auto
    obtain t1 where f: "fill ?t0 [0..n] = Some t1" and b1: "bst t1" and m1: "memo_ok t1"
      and k1: "keys t1 = keys ?t0 \<union> {0..n}"
      using fill_memo[OF b0 m0 z p0, of n] by blast
    have "n \<in> keys t1" using k1 assms(3) by simp
    then obtain v where v: "map_of (entries t1) n = Some v"
      and s1: "search t1 n = Some (Hit v, splay_tot t1 n)"
      using search_bst_present[OF b1] by blast
    have "v = F (nat n)" using memo_ok_lookup[OF m1 v assms(3)] .
    then have "fibonacci_splay n tree = Some (Hit (fib_iter n), splay_tot t1 n)"
      using s f s1 fi by (simp add: fibonacci_splay_def)
    then show ?thesis using fi b1 m1 by (simp add: bst_splay_tot memo_ok_splay_tot)
  qed
qed

theorem fibonacci_splay_correct_witness:
  "bst Empty \<and> memo_ok Empty \<and> (0 :: int) \<le> 10
   \<and> (\<exists>t'. fibonacci_splay 10 Empty = Some (Hit 55, t') \<and> F (nat 10) = 55
         \<and> bst t' \<and> memo_ok t')"
proof -
  have h1: "bst Empty" by simp
  have h2: "memo_ok Empty" by (simp add: memo_ok_def)
  have h3: "(0 :: int) \<le> 10" by simp
  have v: "fib_iter 10 = 55" by code_simp
  from fibonacci_splay_correct[OF h1 h2 h3] h1 h2 h3 show ?thesis unfolding v by auto
qed

end
